theory Spec2Isabelle
  imports Main
begin

section \<open>Sequences, consumers and sources\<close>

text \<open>
  The Go type \<^verbatim>\<open>iter.Seq[T]\<close> is \<^verbatim>\<open>func(yield func(T) bool)\<close>: a sequence is a
  function that drives a consumer \<^verbatim>\<open>yield\<close> over its elements and stops presenting
  elements once \<^verbatim>\<open>yield\<close> returns \<^verbatim>\<open>false\<close>.  Both sides have effects, so both are
  modelled by explicit state passing:
  \<^item> a consumer of elements of type \<open>'a\<close> with state \<open>'s\<close> takes the element and its state
    and returns the continue flag and its new state;
  \<^item> a sequence takes the consumer, the state \<open>'u\<close> of whatever lies upstream of it and
    the consumer's state, and returns both states after the drive.
  The variables a Go closure captures become extra components of the state of the
  consumer that the closure is, and every closure is lifted to a named definition
  (\<open>Take_yield\<close> is the closure that \<^verbatim>\<open>Take\<close> passes to \<^verbatim>\<open>s\<close>, and so on).
\<close>

type_synonym ('a, 's) yield = "'a \<Rightarrow> 's \<Rightarrow> bool \<times> 's"

type_synonym ('a, 'u, 's) seq = "('a, 's) yield \<Rightarrow> 'u \<times> 's \<Rightarrow> 'u \<times> 's"

text \<open>
  \<^verbatim>\<open>slices.Values(s)\<close> of the standard library: \<^verbatim>\<open>for _, v := range s { if !yield(v) { return } }\<close>.
  It reads an in-memory slice and touches nothing upstream.
\<close>

fun Values :: "'a list \<Rightarrow> ('a, 'u, 's) seq" where
  "Values [] yield (u, st) = (u, st)"
| "Values (v # vs) yield (u, st) =
     (case yield v st of (cont, st') \<Rightarrow> if cont then Values vs yield (u, st') else (u, st'))"

text \<open>
  An observable source: the same loop as \<open>Values\<close>, over a resource whose state is the
  list of the elements it has handed out so far, in order.  A claim about what a
  combinator pulls from its upstream is a claim about this list.
\<close>

fun Source :: "'a list \<Rightarrow> ('a, 'a list, 's) seq" where
  "Source [] yield (u, st) = (u, st)"
| "Source (v # vs) yield (u, st) =
     (case yield v st of (cont, st') \<Rightarrow>
        if cont then Source vs yield (u @ [v], st') else (u @ [v], st'))"

section \<open>Reduce, CollectInto, Collect\<close>

text \<open>
  \<^verbatim>\<open>for x := range s { init = reduce(x, init) }; return init\<close>: the loop body never
  breaks, so the consumer it stands for always answers \<^verbatim>\<open>true\<close>.
\<close>

definition Reduce_yield :: "('a \<Rightarrow> 'b \<Rightarrow> 'b) \<Rightarrow> ('a, 'b) yield" where
  "Reduce_yield reduce x init = (True, reduce x init)"

definition Reduce :: "('a, 'u, 'b) seq \<Rightarrow> ('a \<Rightarrow> 'b \<Rightarrow> 'b) \<Rightarrow> 'b \<Rightarrow> 'u \<Rightarrow> 'u \<times> 'b" where
  "Reduce s reduce init u = s (Reduce_yield reduce) (u, init)"

definition CollectInto :: "('a, 'u, 'c) seq \<Rightarrow> 'c \<Rightarrow> ('a \<Rightarrow> 'c \<Rightarrow> 'c) \<Rightarrow> 'u \<Rightarrow> 'u \<times> 'c" where
  "CollectInto s collection addElement u = Reduce s addElement collection u"

definition append_elem :: "'a \<Rightarrow> 'a list \<Rightarrow> 'a list" where
  "append_elem t s = s @ [t]"

definition Collect_ik :: "('a, 'u, 'a list) seq \<Rightarrow> 'u \<Rightarrow> 'u \<times> 'a list" where
  "Collect_ik s u = CollectInto s [] append_elem u"

section \<open>Max and Min\<close>

text \<open>
  \<^verbatim>\<open>func Max[T cmp.Ordered](s iter.Seq[T]) (t T, ok bool)\<close>: the named results start at
  the zero value and \<^verbatim>\<open>false\<close>; the closure replaces \<^verbatim>\<open>t\<close> when
  \<^verbatim>\<open>!ok || t > iterT\<close> and always continues.  \<^verbatim>\<open>Min\<close> is the same with \<^verbatim>\<open>t < iterT\<close>.
\<close>

definition Max_yield :: "('a::linorder, 'a \<times> bool) yield" where
  "Max_yield iterT st =
     (case st of (t, ok) \<Rightarrow>
        if \<not> ok \<or> t > iterT then (True, (iterT, True)) else (True, (t, ok)))"

definition Max_ik :: "('a::{linorder,zero}, 'u, 'a \<times> bool) seq \<Rightarrow> 'u \<Rightarrow> 'u \<times> ('a \<times> bool)" where
  "Max_ik s u = s Max_yield (u, (0, False))"

definition Min_yield :: "('a::linorder, 'a \<times> bool) yield" where
  "Min_yield iterT st =
     (case st of (t, ok) \<Rightarrow>
        if \<not> ok \<or> t < iterT then (True, (iterT, True)) else (True, (t, ok)))"

definition Min_ik :: "('a::{linorder,zero}, 'u, 'a \<times> bool) seq \<Rightarrow> 'u \<Rightarrow> 'u \<times> ('a \<times> bool)" where
  "Min_ik s u = s Min_yield (u, (0, False))"

section \<open>Take and Skip\<close>

text \<open>
  \<^verbatim>\<open>Take\<close>: the captured counter \<^verbatim>\<open>i\<close> starts at 0; the closure does \<^verbatim>\<open>i++\<close> and
  forwards the element when \<^verbatim>\<open>i <= n\<close>, else answers \<^verbatim>\<open>false\<close>.  Go's \<^verbatim>\<open>int\<close> is an
  \<open>int\<close> here: the counter only counts delivered elements and stays far from 2^63.
\<close>

definition Take_yield :: "int \<Rightarrow> ('a, 's) yield \<Rightarrow> ('a, int \<times> 's) yield" where
  "Take_yield n yield t ist =
     (case ist of (i, st) \<Rightarrow>
        let i = i + 1 in
        if i \<le> n then (case yield t st of (cont, st') \<Rightarrow> (cont, (i, st')))
        else (False, (i, st)))"

definition Take :: "('a, 'u, int \<times> 's) seq \<Rightarrow> int \<Rightarrow> ('a, 'u, 's) seq" where
  "Take s n yield ust =
     (case ust of (u, st) \<Rightarrow>
        (case s (Take_yield n yield) (u, (0, st)) of (u', (i, st')) \<Rightarrow> (u', st')))"

text \<open>
  \<^verbatim>\<open>Skip\<close>: while \<^verbatim>\<open>i < n\<close> the closure counts the element and continues; afterwards
  it forwards the element and the consumer's answer.
\<close>

definition Skip_yield :: "int \<Rightarrow> ('a, 's) yield \<Rightarrow> ('a, int \<times> 's) yield" where
  "Skip_yield n yield t ist =
     (case ist of (i, st) \<Rightarrow>
        if i < n then (True, (i + 1, st))
        else (case yield t st of (cont, st') \<Rightarrow> (cont, (i, st'))))"

definition Skip :: "('a, 'u, int \<times> 's) seq \<Rightarrow> int \<Rightarrow> ('a, 'u, 's) seq" where
  "Skip s n yield ust =
     (case ust of (u, st) \<Rightarrow>
        (case s (Skip_yield n yield) (u, (0, st)) of (u', (i, st')) \<Rightarrow> (u', st')))"

section \<open>Sorted and SortedBy\<close>

text \<open>
  \<^verbatim>\<open>slices.SortFunc\<close> and \<^verbatim>\<open>slices.Sorted\<close> belong to the standard library.
  On a slice shorter than 12 \<^verbatim>\<open>SortFunc(x, cmp)\<close> runs the library's insertion sort,
  \<^verbatim>\<open>for i := a + 1; i < b; i++ { for j := i; j > a && cmp(data[j], data[j-1]) < 0; j-- { swap } }\<close>:
  each element sinks towards the front past the elements it is less than, so elements
  that tie keep their order.  \<open>sink\<close> is the inner loop, on the sorted prefix held
  back to front, and \<open>SortFunc\<close> is the outer loop.  On longer slices the library
  switches to a quicksort that may leave ties in another order; no result below depends
  on the order of ties.
  \<^verbatim>\<open>slices.Sorted(seq)\<close> is \<^verbatim>\<open>s := Collect(seq); Sort(s); return s\<close>, where the
  library's \<^verbatim>\<open>Collect\<close> appends every element of \<^verbatim>\<open>seq\<close> to a slice, as this
  repository's \<^verbatim>\<open>Collect\<close> does.
\<close>

fun sink :: "('a \<Rightarrow> 'a \<Rightarrow> int) \<Rightarrow> 'a \<Rightarrow> 'a list \<Rightarrow> 'a list" where
  "sink order x [] = [x]"
| "sink order x (p # ps) = (if order x p < 0 then p # sink order x ps else x # p # ps)"

definition SortFunc :: "('a \<Rightarrow> 'a \<Rightarrow> int) \<Rightarrow> 'a list \<Rightarrow> 'a list" where
  "SortFunc order x = rev (fold (sink order) x [])"

definition slices_Sorted :: "('a::linorder, 'u, 'a list) seq \<Rightarrow> 'u \<Rightarrow> 'u \<times> 'a list" where
  "slices_Sorted sq u = (case Collect_ik sq u of (u', s) \<Rightarrow> (u', sort s))"

text \<open>
  Both functions run their body when they are called: \<^verbatim>\<open>Sorted\<close> is
  \<^verbatim>\<open>return slices.Values(slices.Sorted(s))\<close> and \<^verbatim>\<open>SortedBy\<close> is
  \<^verbatim>\<open>ret := Collect(s); slices.SortFunc(ret, order); return slices.Values(ret)\<close>.
  So the construction itself acts on the upstream state \<open>u\<close>, and returns the new
  upstream state together with the sequence it built.
\<close>

definition Sorted :: "('a::linorder, 'u, 'a list) seq \<Rightarrow> 'u \<Rightarrow> 'u \<times> ('a, 'v, 's) seq" where
  "Sorted s u = (case slices_Sorted s u of (u', ret) \<Rightarrow> (u', Values ret))"

definition SortedBy ::
  "('a, 'u, 'a list) seq \<Rightarrow> ('a \<Rightarrow> 'a \<Rightarrow> int) \<Rightarrow> 'u \<Rightarrow> 'u \<times> ('a, 'v, 's) seq" where
  "SortedBy s order u =
     (case Collect_ik s u of (u', ret) \<Rightarrow> (u', Values (SortFunc order ret)))"

section \<open>Chunk\<close>

datatype error = Panic string

text \<open>
  The closure of \<^verbatim>\<open>Chunk\<close> captures the buffer \<^verbatim>\<open>chunk\<close> (made with \<^verbatim>\<open>chunkSize\<close> zero
  values) and the fill position \<^verbatim>\<open>idx\<close>.  It stores the element, increments \<^verbatim>\<open>idx\<close>,
  and when the buffer is full resets \<^verbatim>\<open>idx\<close> to 0 \<^emph>\<open>before\<close> it yields the buffer.
  The consumer receives the buffer's contents as they are at that moment (the Go slice
  aliases storage that the next chunk overwrites).  \<^verbatim>\<open>chunk[idx] = t\<close> is in range
  whenever \<open>0 \<le> idx < chunkSize\<close>, which lemma \<open>Source_Chunk_yield\<close> shows to be kept.
\<close>

definition Chunk_yield :: "int \<Rightarrow> ('a list, 's) yield \<Rightarrow> ('a, 'a list \<times> int \<times> 's) yield" where
  "Chunk_yield chunkSize yield t cst =
     (case cst of (chunk, idx, st) \<Rightarrow>
        let chunk = chunk[nat idx := t]; idx = idx + 1 in
        if idx = chunkSize
        then (case yield chunk st of (cont, st') \<Rightarrow> (cont, (chunk, 0, st')))
        else (True, (chunk, idx, st)))"

definition Chunk_seq ::
  "('a::zero, 'u, 'a list \<times> int \<times> 's) seq \<Rightarrow> int \<Rightarrow> ('a list, 'u, 's) seq" where
  "Chunk_seq s chunkSize yield ust =
     (case ust of (u, st) \<Rightarrow>
        (case s (Chunk_yield chunkSize yield) (u, (replicate (nat chunkSize) 0, 0, st)) of
           (u', (chunk, idx, st')) \<Rightarrow>
             if idx \<noteq> 0 then (u', snd (yield (take (nat idx) chunk) st')) else (u', st')))"

definition Chunk ::
  "('a::zero, 'u, 'a list \<times> int \<times> 's) seq \<Rightarrow> int \<Rightarrow> error + ('a list, 'u, 's) seq" where
  "Chunk s chunkSize =
     (if chunkSize < 1 then Inl (Panic ''Chunk size too small'')
      else Inr (Chunk_seq s chunkSize))"

section \<open>Append, Tee, Until\<close>

text \<open>
  \<^verbatim>\<open>Append\<close>: \<^verbatim>\<open>var cont bool\<close> starts at Go's zero value \<^verbatim>\<open>false\<close>; the closure stores
  each answer of \<^verbatim>\<open>yield\<close> in it; after the drive \<^verbatim>\<open>t\<close> is yielded when \<^verbatim>\<open>cont\<close> holds.
\<close>

definition Append_yield :: "('a, 's) yield \<Rightarrow> ('a, bool \<times> 's) yield" where
  "Append_yield yield t cst =
     (case cst of (cont, st) \<Rightarrow>
        (case yield t st of (cont', st') \<Rightarrow> (cont', (cont', st'))))"

definition Append :: "'a \<Rightarrow> ('a, 'u, bool \<times> 's) seq \<Rightarrow> ('a, 'u, 's) seq" where
  "Append t s yield ust =
     (case ust of (u, st) \<Rightarrow>
        (case s (Append_yield yield) (u, (False, st)) of
           (u', (cont, st')) \<Rightarrow>
             if cont then (u', snd (yield t st')) else (u', st')))"

text \<open>
  \<^verbatim>\<open>Tee\<close>: \<^verbatim>\<open>continue1\<close> and \<^verbatim>\<open>continue2\<close> start at \<^verbatim>\<open>true\<close>; each consumer is called
  only while its flag holds; the closure answers \<^verbatim>\<open>continue1 || continue2\<close>.  The two
  consumers act on one shared state.
\<close>

definition Tee_yield :: "('a, 's) yield \<Rightarrow> ('a, 's) yield \<Rightarrow> ('a, bool \<times> bool \<times> 's) yield" where
  "Tee_yield yield1 yield2 t cst =
     (case cst of (continue1, continue2, st) \<Rightarrow>
        (case (if continue1 then yield1 t st else (continue1, st)) of (continue1, st) \<Rightarrow>
        (case (if continue2 then yield2 t st else (continue2, st)) of (continue2, st) \<Rightarrow>
           (continue1 \<or> continue2, (continue1, continue2, st)))))"

definition Tee :: "('a, 'u, bool \<times> bool \<times> 's) seq \<Rightarrow> ('a, 's) yield \<Rightarrow> ('a, 'u, 's) seq" where
  "Tee s yield1 yield2 ust =
     (case ust of (u, st) \<Rightarrow>
        (case s (Tee_yield yield1 yield2) (u, (True, True, st)) of
           (u', (continue1, continue2, st')) \<Rightarrow> (u', st')))"

text \<open>
  \<^verbatim>\<open>Until\<close> (comment in the source: "Until yields values until until returns false"):
  \<^verbatim>\<open>if until(t) { return yield(t) }; return false\<close>.
\<close>

definition Until_yield :: "('a \<Rightarrow> bool) \<Rightarrow> ('a, 's) yield \<Rightarrow> ('a, 's) yield" where
  "Until_yield until yield t st = (if until t then yield t st else (False, st))"

definition Until :: "('a, 'u, 's) seq \<Rightarrow> ('a \<Rightarrow> bool) \<Rightarrow> ('a, 'u, 's) seq" where
  "Until s until yield ust = s (Until_yield until yield) ust"

section \<open>IsSorted and IsSortedBy\<close>

text \<open>
  The local \<^verbatim>\<open>lastV\<close> of \<^verbatim>\<open>IsSortedBy\<close> is a struct with a nested struct \<^verbatim>\<open>cmpSign\<close>.
  The body of the \<^verbatim>\<open>for v := range s\<close> loop is the consumer; its \<^verbatim>\<open>return 0\<close> stops
  the drive and sets the function's result, kept in an \<open>int option\<close> beside \<^verbatim>\<open>lastV\<close>.
  \<^verbatim>\<open>loopEnd\<close> is the code after the label of that name.
\<close>

record cmpSign_t =
  cmpSign_sign :: int
  cmpSign_ok :: bool

record 'a lastV_t =
  lastV_v :: 'a
  lastV_ok :: bool
  lastV_cmpSign :: cmpSign_t

definition loopEnd :: "'a \<Rightarrow> 'a lastV_t \<Rightarrow> 'a lastV_t" where
  "loopEnd v lastV = lastV\<lparr>lastV_v := v, lastV_ok := True\<rparr>"

definition IsSortedBy_body :: "('a \<Rightarrow> 'a \<Rightarrow> int) \<Rightarrow> ('a, 'a lastV_t \<times> int option) yield" where
  "IsSortedBy_body order v st =
     (case st of (lastV, ret) \<Rightarrow>
        if \<not> lastV_ok lastV
        then (True, (loopEnd v (lastV\<lparr>lastV_ok := True, lastV_v := v\<rparr>), ret))
        else if \<not> cmpSign_ok (lastV_cmpSign lastV)
        then (True, (loopEnd v (lastV\<lparr>lastV_cmpSign :=
                \<lparr>cmpSign_sign = order v (lastV_v lastV), cmpSign_ok = True\<rparr>\<rparr>), ret))
        else if order v (lastV_v lastV) \<noteq> cmpSign_sign (lastV_cmpSign lastV)
        then (False, (lastV, Some 0))
        else (True, (loopEnd v lastV, ret)))"

definition lastV_init :: "'a::zero lastV_t" where
  "lastV_init = \<lparr>lastV_v = 0, lastV_ok = False,
                  lastV_cmpSign = \<lparr>cmpSign_sign = 0, cmpSign_ok = False\<rparr>\<rparr>"

text \<open>
  The code after the loop, \<^verbatim>\<open>if !lastV.cmpSign.ok { return 1 }; return lastV.cmpSign.sign\<close>,
  reached only when the loop did not return.
\<close>

definition IsSortedBy_result :: "'a lastV_t \<times> int option \<Rightarrow> int" where
  "IsSortedBy_result st =
     (case st of (lastV, ret) \<Rightarrow>
        (case ret of
           Some r \<Rightarrow> r
         | None \<Rightarrow>
             if \<not> cmpSign_ok (lastV_cmpSign lastV) then 1
             else cmpSign_sign (lastV_cmpSign lastV)))"

definition IsSortedBy ::
  "('a::zero, 'u, 'a lastV_t \<times> int option) seq \<Rightarrow> ('a \<Rightarrow> 'a \<Rightarrow> int) \<Rightarrow> 'u \<Rightarrow> 'u \<times> int" where
  "IsSortedBy s order u =
     (case s (IsSortedBy_body order) (u, (lastV_init, None)) of
        (u', st) \<Rightarrow> (u', IsSortedBy_result st))"

text \<open>\<^verbatim>\<open>cmp.Compare\<close> of the standard library, on a linear order: -1, 0 or +1.\<close>

definition cmp_Compare :: "'a::linorder \<Rightarrow> 'a \<Rightarrow> int" where
  "cmp_Compare x y = (if x < y then -1 else if x > y then 1 else 0)"

definition IsSorted ::
  "('a::{linorder,zero}, 'u, 'a lastV_t \<times> int option) seq \<Rightarrow> 'u \<Rightarrow> 'u \<times> int" where
  "IsSorted s u = IsSortedBy s cmp_Compare u"

section \<open>Consumers used to state the results\<close>

text \<open>
  A consumer that records every element it is given and answers by a function of what
  it has recorded so far; \<open>stop_after a\<close> answers \<^verbatim>\<open>false\<close> on the \<open>a\<close>-th element it is
  given, and \<open>keep_all\<close> always continues.  \<open>on_fst\<close> and \<open>on_snd\<close> let two consumers
  share a state, each with its own record.
\<close>

definition decide :: "('a list \<Rightarrow> bool) \<Rightarrow> ('a, 'a list) yield" where
  "decide p t seen = (p (seen @ [t]), seen @ [t])"

definition fewer_than :: "nat \<Rightarrow> 'a list \<Rightarrow> bool" where
  "fewer_than a seen = (length seen < a)"

definition stop_after :: "nat \<Rightarrow> ('a, 'a list) yield" where
  "stop_after a = decide (fewer_than a)"

definition always :: "'a list \<Rightarrow> bool" where
  "always seen = True"

definition keep_all :: "('a, 'a list) yield" where
  "keep_all = decide always"

definition on_fst :: "('a, 's) yield \<Rightarrow> ('a, 's \<times> 'r) yield" where
  "on_fst y t st = (case st of (s1, s2) \<Rightarrow> (case y t s1 of (c, s1') \<Rightarrow> (c, (s1', s2))))"

definition on_snd :: "('a, 'r) yield \<Rightarrow> ('a, 's \<times> 'r) yield" where
  "on_snd y t st = (case st of (s1, s2) \<Rightarrow> (case y t s2 of (c, s2') \<Rightarrow> (c, (s1, s2'))))"

text \<open>A stop predicate for the take-until examples: true exactly on 2.\<close>

definition equals_two :: "int \<Rightarrow> bool" where
  "equals_two x = (x = 2)"

text \<open>A comparator that is negative, zero or positive as Go's comparators are: the difference.\<close>

definition diff_order :: "int \<Rightarrow> int \<Rightarrow> int" where
  "diff_order a b = a - b"

text \<open>A comparator under which any two elements tie.\<close>

definition tie_order :: "int \<Rightarrow> int \<Rightarrow> int" where
  "tie_order a b = 0"

section \<open>The classification as the specification words it\<close>

text \<open>
  The specification takes a three-way comparator (negative, zero or positive) and
  works with the \<^emph>\<open>sign\<close> of each comparison.  No element or one element: verdict 1.
  The sign of the comparison of the second element with the first is the established
  sign.  From then on: take the sign of the comparison of the new element with the
  previous one; if it differs from the established sign the verdict is 0 at once and
  the scan stops; otherwise go on with the new element as the previous one; at the end
  the verdict is the established sign.  \<open>spec_established\<close> and \<open>spec_IsSortedBy\<close> are
  that description, with \<open>sgn\<close> for the sign; they return the elements looked at and
  the verdict.
\<close>

fun spec_established ::
  "('a \<Rightarrow> 'a \<Rightarrow> int) \<Rightarrow> int \<Rightarrow> 'a \<Rightarrow> 'a list \<Rightarrow> 'a list \<times> int" where
  "spec_established order sg prev [] = ([], sg)"
| "spec_established order sg prev (v # vs) =
     (if sgn (order v prev) \<noteq> sg then ([v], 0)
      else (case spec_established order sg v vs of (seen, r) \<Rightarrow> (v # seen, r)))"

fun spec_IsSortedBy :: "('a \<Rightarrow> 'a \<Rightarrow> int) \<Rightarrow> 'a list \<Rightarrow> 'a list \<times> int" where
  "spec_IsSortedBy order [] = ([], 1)"
| "spec_IsSortedBy order [x] = ([x], 1)"
| "spec_IsSortedBy order (x # y # zs) =
     (case spec_established order (sgn (order y x)) y zs of
        (seen, r) \<Rightarrow> (x # y # seen, r))"

section \<open>Results\<close>

subsection \<open>Collecting a source\<close>

lemma Source_keep:
  "Source xs (Reduce_yield append_elem) (u, acc) = (u @ xs, acc @ xs)"
  by (induction xs arbitrary: u acc) (auto simp: Reduce_yield_def append_elem_def)

lemma Collect_Source: "Collect_ik (Source xs) u = (u @ xs, xs)"
  by (simp add: Collect_ik_def CollectInto_def Reduce_def Source_keep)

lemma Values_upstream: "fst (Values xs yield (w, st)) = w"
  by (induction xs arbitrary: st) (auto split: prod.splits)

lemma Reduce_yield_append_elem: "Reduce_yield append_elem = decide always"
  by (rule ext, rule ext) (simp add: Reduce_yield_def append_elem_def decide_def always_def)

subsection \<open>Max and Min\<close>

lemma Source_Max_yield:
  "Source xs Max_yield (u, (t, True)) = (u @ xs, (fold min xs t, True))"
  by (induction xs arbitrary: u t) (auto simp: Max_yield_def min_def)

lemma Source_Min_yield:
  "Source xs Min_yield (u, (t, True)) = (u @ xs, (fold max xs t, True))"
  by (induction xs arbitrary: u t) (auto simp: Min_yield_def max_def)

text \<open>
  C1, as the code behaves.  On every nonempty sequence \<open>Max_ik\<close> returns the least
  element and \<open>Min_ik\<close> the greatest one, each with \<open>ok = True\<close>: the comparisons of the
  two closures are exchanged.  On \<open>[-1, 190, -3]\<close> the function named Max returns
  \<open>(-3, True)\<close> and the function named Min returns \<open>(190, True)\<close>, where the claim (and
  the comment above Max) promise \<open>190\<close> and \<open>-3\<close>.  On the empty sequence both return
  the zero value and \<open>False\<close>.
\<close>

theorem C1_Max_Min_exchanged:
  "Max_ik (Source (x # xs)) u = (u @ x # xs, (Min (set (x # xs)), True))
   \<and> Min_ik (Source (x # xs)) u = (u @ x # xs, (Max (set (x # xs)), True))
   \<and> Max_ik (Source [-1, 190, -3 :: int]) [] = ([-1, 190, -3], (-3, True))
   \<and> Min_ik (Source [-1, 190, -3 :: int]) [] = ([-1, 190, -3], (190, True))
   \<and> Max_ik (Source ([] :: int list)) [] = ([], (0, False))
   \<and> Min_ik (Source ([] :: int list)) [] = ([], (0, False))"
proof -
  have a: "Max_ik (Source (x # xs)) u = (u @ x # xs, (Min (set (x # xs)), True))"
    using Min.set_eq_fold [of x xs]
    by (simp add: Max_ik_def Max_yield_def Source_Max_yield)
  have b: "Min_ik (Source (x # xs)) u = (u @ x # xs, (Max (set (x # xs)), True))"
    using Max.set_eq_fold [of x xs]
    by (simp add: Min_ik_def Min_yield_def Source_Min_yield)
  have c: "Max_ik (Source [-1, 190, -3 :: int]) [] = ([-1, 190, -3], (-3, True))"
    by (simp add: Max_ik_def Max_yield_def)
  have d: "Min_ik (Source [-1, 190, -3 :: int]) [] = ([-1, 190, -3], (190, True))"
    by (simp add: Min_ik_def Min_yield_def)
  have e: "Max_ik (Source ([] :: int list)) [] = ([], (0, False))"
    by (simp add: Max_ik_def)
  have f: "Min_ik (Source ([] :: int list)) [] = ([], (0, False))"
    by (simp add: Min_ik_def)
  from a b c d e f show ?thesis by blast
qed

text \<open>The same at another input: of 2, 7, 1 the function Max returns 1 and Min returns 7.\<close>

theorem C1_Max_Min_exchanged_witness:
  "Max_ik (Source [2, 7, 1 :: int]) [] = ([2, 7, 1], (1, True))
   \<and> Min_ik (Source [2, 7, 1 :: int]) [] = ([2, 7, 1], (7, True))"
  using C1_Max_Min_exchanged [of "2 :: int" "[7, 1]" "[]"] by simp

subsection \<open>Append\<close>

lemma Source_Append_keep:
  "Source xs (Append_yield (Reduce_yield append_elem)) (u, (c, acc))
     = (u @ xs, (c \<or> xs \<noteq> [], acc @ xs))"
  by (induction xs arbitrary: u c acc)
     (auto simp: Append_yield_def Reduce_yield_def append_elem_def)

lemma Source_Append_decide:
  "Source xs (Append_yield (decide p)) (u, (c, seen))
     = (case Source xs (decide p) (u, seen) of
          (u', seen') \<Rightarrow> (u', (if xs = [] then c else p seen', seen')))"
proof (induction xs arbitrary: u c seen)
  case Nil
  show ?case by simp
next
  case (Cons x xs)
  show ?case
  proof (cases "p (seen @ [x])")
    case True
    then show ?thesis
      using Cons.IH [of "u @ [x]" True "seen @ [x]"]
      by (cases xs) (auto simp: Append_yield_def decide_def split: prod.splits)
  next
    case False
    then show ?thesis by (simp add: Append_yield_def decide_def)
  qed
qed

text \<open>
  For a consumer that answers by any function \<open>p\<close> of what it has received: the
  appended value is yielded exactly when the source was not empty and the consumer's
  last answer was to continue.  In particular it never follows an early stop.
\<close>

lemma Append_decide:
  "Append v (Source xs) (decide p) (u, [])
     = (case Source xs (decide p) (u, []) of
          (u', seen') \<Rightarrow> (u', if xs \<noteq> [] \<and> p seen' then seen' @ [v] else seen'))"
  by (auto simp: Append_def Source_Append_decide decide_def split: prod.splits)

text \<open>
  C2, as the code behaves.  Fully consumed, \<open>Append v\<close> over a nonempty sequence gives
  the sequence's elements and then \<open>v\<close>; over the empty sequence it gives nothing at
  all, where the claim says it gives just \<open>v\<close>: the flag \<^verbatim>\<open>cont\<close> is never set when the
  closure is never called, and it starts at \<^verbatim>\<open>false\<close>.
\<close>

theorem C2_Append_empty_yields_nothing:
  "Collect_ik (Append (7 :: int) (Source [])) [] = ([], [])
   \<and> Collect_ik (Append v (Source [])) u = (u, [])
   \<and> Collect_ik (Append v (Source (x # xs))) u = (u @ x # xs, x # xs @ [v])"
  by (simp add: Collect_ik_def CollectInto_def Reduce_def Append_def Source_Append_keep
        del: Source.simps)
     (simp add: Reduce_yield_def append_elem_def)

theorem C2_Append_empty_yields_nothing_witness:
  "Collect_ik (Append (9 :: int) (Source [])) [] = ([], [])
   \<and> Collect_ik (Append (9 :: int) (Source [1, 2])) [] = ([1, 2], [1, 2, 9])"
  using C2_Append_empty_yields_nothing [of "9 :: int" "[]" 1 "[2]"] by simp

subsection \<open>Until\<close>

lemma Source_Until_yield:
  "snd (Source xs (Until_yield until yield) (u, st))
     = snd (Source (takeWhile until xs) yield (u, st))"
  by (induction xs arbitrary: u st) (auto simp: Until_yield_def split: prod.splits)

lemma Source_Until_keep:
  "Source xs (Until_yield until (Reduce_yield append_elem)) (u, acc)
     = (u @ take (Suc (length (takeWhile until xs))) xs, acc @ takeWhile until xs)"
  by (induction xs arbitrary: u acc)
     (auto simp: Until_yield_def Reduce_yield_def append_elem_def)

text \<open>
  C3, amended to what the code does.  \<open>Until s until\<close> forwards each element on which
  \<open>until\<close> is true, with the consumer's own answer, and at the first element on which
  \<open>until\<close> is false it stops without forwarding that element: whatever the consumer,
  it sees exactly a drive over \<open>takeWhile until xs\<close>; collected, the result is
  \<open>takeWhile until xs\<close> and the source has handed out one element more than that (the
  one that stopped it), when there is one.
\<close>

theorem C3_Until_forwards_while_true:
  "snd (Until (Source xs) until yield (u, st))
     = snd (Source (takeWhile until xs) yield (u, st))
   \<and> Collect_ik (Until (Source xs) until) u
       = (u @ take (Suc (length (takeWhile until xs))) xs, takeWhile until xs)"
  by (simp add: Until_def Source_Until_yield Collect_ik_def CollectInto_def Reduce_def
        Source_Until_keep)

theorem C3_Until_forwards_while_true_witness:
  "Collect_ik (Until (Source [2, 2, 5, 2]) equals_two) [] = ([2, 2, 5], [2, 2])"
  using C3_Until_forwards_while_true [of "[2, 2, 5, 2]" equals_two keep_all "[]" "[]"]
  by (simp add: equals_two_def)

text \<open>
  C3 as the claim states it fails: with the predicate "equals 2" as the stop predicate,
  the claim has 1 forwarded (the predicate is false on it) and then 2 forwarded once
  before the stop, so the consumer would receive \<open>[1, 2]\<close>.  The code stops at 1 and
  the consumer receives nothing.
\<close>

theorem C3_Until_counterexample:
  "Collect_ik (Until (Source [1, 2, 3]) equals_two) [] = ([1], [])
   \<and> snd (Collect_ik (Until (Source [1, 2, 3]) equals_two) []) \<noteq> [1, 2]"
  by (simp add: Collect_ik_def CollectInto_def Reduce_def Until_def Until_yield_def
        equals_two_def)

subsection \<open>Sorted and SortedBy\<close>

text \<open>
  C4, amended to what the code does.  Building \<open>Sorted s\<close> or \<open>SortedBy s order\<close> drives
  the source to exhaustion then and there (the upstream state after the construction
  holds every element of the source), and the sequence that is returned ranges over the
  sorted copy: driving it, with any consumer, leaves the upstream state as it is.
\<close>

theorem C4_Sorted_drains_at_construction:
  "Sorted (Source xs) u = (u @ xs, Values (sort xs))
   \<and> SortedBy (Source xs) order u = (u @ xs, Values (SortFunc order xs))
   \<and> fst (snd (Sorted (Source xs) u) yield (w, st)) = w
   \<and> fst (snd (SortedBy (Source xs) order u) yield' (w', st')) = w'"
  by (simp add: SortedBy_def Sorted_def slices_Sorted_def Collect_Source Values_upstream
        del: Source.simps)

theorem C4_Sorted_drains_at_construction_witness:
  "Sorted (Source [2, 1 :: int]) []
     = ([2, 1], (Values [1, 2] :: (int, int list, int list) seq))
   \<and> Collect_ik (snd (Sorted (Source [2, 1 :: int]) [])) [2, 1 :: int] = ([2, 1], [1, 2])"
proof -
  have a: "Sorted (Source [2, 1 :: int]) []
             = ([2, 1], (Values (sort [2, 1]) :: (int, int list, int list) seq))"
    using C4_Sorted_drains_at_construction [of "[2, 1 :: int]" "[]", THEN conjunct1] by simp
  then show ?thesis
    by (simp add: Collect_ik_def CollectInto_def Reduce_def Reduce_yield_def append_elem_def)
qed

text \<open>
  C4 as the claim states it fails: the construction alone, before anything drives the
  result, has already taken 3, 1 and 2 from the source.
\<close>

theorem C4_Sorted_counterexample:
  "fst (SortedBy (Source [3, 1, 2]) cmp_Compare [] :: int list \<times> (int, unit, unit) seq)
     = [3, 1, 2]
   \<and> fst (Sorted (Source [3, 1, 2]) [] :: int list \<times> (int, unit, unit) seq) = [3, 1, 2]
   \<and> fst (SortedBy (Source [3, 1, 2]) cmp_Compare [] :: int list \<times> (int, unit, unit) seq)
       \<noteq> []"
  by (simp add: SortedBy_def Sorted_def slices_Sorted_def Collect_Source del: Source.simps)

text \<open>Elements that tie keep their order, and the difference comparator sorts upwards.\<close>

lemma SortFunc_examples:
  "SortFunc tie_order [10, 11] = [10, 11] \<and> SortFunc diff_order [3, 1, 2] = [1, 2, 3]"
  by (simp add: SortFunc_def tie_order_def diff_order_def)

subsection \<open>Tee\<close>

lemma Tee_yield_stop_after:
  "Tee_yield (on_fst (stop_after a)) (on_snd (stop_after b)) t (c1, c2, (l1, l2))
    = (let l1' = (if c1 then l1 @ [t] else l1); l2' = (if c2 then l2 @ [t] else l2);
           c1' = (c1 \<and> Suc (length l1) < a); c2' = (c2 \<and> Suc (length l2) < b)
       in (c1' \<or> c2', (c1', c2', (l1', l2'))))"
  by (simp add: Tee_yield_def on_fst_def on_snd_def stop_after_def decide_def fewer_than_def Let_def)

lemma Source_Tee_yield:
  "c1 = (length l1 < a) \<Longrightarrow> c2 = (length l2 < b) \<Longrightarrow> c1 \<or> c2 \<Longrightarrow>
   Source xs (Tee_yield (on_fst (stop_after a)) (on_snd (stop_after b))) (u, (c1, c2, (l1, l2)))
    = (u @ take (max (a - length l1) (b - length l2)) xs,
       (length l1 + length xs < a, length l2 + length xs < b,
        (l1 @ take (a - length l1) xs, l2 @ take (b - length l2) xs)))"
proof (induction xs arbitrary: u c1 c2 l1 l2)
  case Nil
  then show ?case by simp
next
  case (Cons x xs)
  let ?l1 = "if c1 then l1 @ [x] else l1"
  let ?l2 = "if c2 then l2 @ [x] else l2"
  let ?c1 = "c1 \<and> Suc (length l1) < a"
  let ?c2 = "c2 \<and> Suc (length l2) < b"
  have step: "Tee_yield (on_fst (stop_after a)) (on_snd (stop_after b)) x (c1, c2, (l1, l2))
     = (?c1 \<or> ?c2, (?c1, ?c2, (?l1, ?l2)))"
    by (simp add: Tee_yield_stop_after Let_def)
  show ?case
  proof (cases "?c1 \<or> ?c2")
    case True
    have h1: "?c1 = (length ?l1 < a)" using Cons.prems by auto
    have h2: "?c2 = (length ?l2 < b)" using Cons.prems by auto
    have m: "max (a - length l1) (b - length l2) = Suc (max (a - length ?l1) (b - length ?l2))"
      using Cons.prems True by (auto simp: max_def)
    have t1: "l1 @ take (a - length l1) (x # xs) = ?l1 @ take (a - length ?l1) xs"
      using Cons.prems by (auto simp: take_Cons')
    have t2: "l2 @ take (b - length l2) (x # xs) = ?l2 @ take (b - length ?l2) xs"
      using Cons.prems by (auto simp: take_Cons')
    have f1: "(length l1 + length (x # xs) < a) = (length ?l1 + length xs < a)"
      using Cons.prems by auto
    have f2: "(length l2 + length (x # xs) < b) = (length ?l2 + length xs < b)"
      using Cons.prems by auto
    have "Source (x # xs) (Tee_yield (on_fst (stop_after a)) (on_snd (stop_after b))) (u, (c1, c2, (l1, l2)))
       = Source xs (Tee_yield (on_fst (stop_after a)) (on_snd (stop_after b))) (u @ [x], (?c1, ?c2, (?l1, ?l2)))"
      using True by (simp add: step)
    also have "\<dots> = ((u @ [x]) @ take (max (a - length ?l1) (b - length ?l2)) xs,
       (length ?l1 + length xs < a, length ?l2 + length xs < b,
        (?l1 @ take (a - length ?l1) xs, ?l2 @ take (b - length ?l2) xs)))"
      by (rule Cons.IH[OF h1 h2 True])
    finally show ?thesis
      unfolding t1 t2 f1 f2 m by simp
  next
    case False
    have m: "max (a - length l1) (b - length l2) = Suc 0"
      using Cons.prems False by (auto simp: max_def)
    have t1: "l1 @ take (a - length l1) (x # xs) = ?l1"
      using Cons.prems False by (auto simp: take_Cons')
    have t2: "l2 @ take (b - length l2) (x # xs) = ?l2"
      using Cons.prems False by (auto simp: take_Cons')
    have f1: "(length l1 + length (x # xs) < a) = ?c1"
      using Cons.prems False by auto
    have f2: "(length l2 + length (x # xs) < b) = ?c2"
      using Cons.prems False by auto
    have "Source (x # xs) (Tee_yield (on_fst (stop_after a)) (on_snd (stop_after b))) (u, (c1, c2, (l1, l2)))
       = (u @ [x], (?c1, ?c2, (?l1, ?l2)))"
      using False by (auto simp: step)
    then show ?thesis
      unfolding t1 t2 f1 f2 m by simp
  qed
qed

lemma Tee_yield_or:
  "fst (Tee_yield yield1 yield2 t (c1, c2, st))
     = (fst (snd (Tee_yield yield1 yield2 t (c1, c2, st)))
        \<or> fst (snd (snd (Tee_yield yield1 yield2 t (c1, c2, st)))))"
  by (simp add: Tee_yield_def split: prod.splits)

text \<open>
  C5.  The side consumer stops after \<open>a\<close> elements and the downstream consumer after
  \<open>b\<close> (each at least 1: a consumer can only answer once it is given an element).
  Then the source hands out exactly the first \<open>max a b\<close> of its elements, the side
  consumer receives exactly the first \<open>a\<close> and the downstream consumer the first \<open>b\<close>
  (all three cut at the length of the source, so neither consumer is called after its
  \<^verbatim>\<open>false\<close>), and for any two consumers the answer of Tee's closure to its upstream is
  the disjunction of the two flags it has just updated.
\<close>

theorem C5_Tee:
  assumes "1 \<le> a" and "1 \<le> b"
  shows "Tee (Source xs) (on_fst (stop_after a)) (on_snd (stop_after b)) (u, ([], []))
           = (u @ take (max a b) xs, (take a xs, take b xs))
         \<and> length (take (max a b) xs) = min (max a b) (length xs)
         \<and> length (take a xs) = min a (length xs)
         \<and> length (take b xs) = min b (length xs)
         \<and> fst (Tee_yield yield1 yield2 t (c1, c2, st))
             = (fst (snd (Tee_yield yield1 yield2 t (c1, c2, st)))
                \<or> fst (snd (snd (Tee_yield yield1 yield2 t (c1, c2, st)))))"
proof -
  have "Source xs (Tee_yield (on_fst (stop_after a)) (on_snd (stop_after b))) (u, (True, True, ([], [])))
    = (u @ take (max (a - length ([]::'a list)) (b - length ([]::'a list))) xs,
       (length ([]::'a list) + length xs < a, length ([]::'a list) + length xs < b,
        ([] @ take (a - length ([]::'a list)) xs, [] @ take (b - length ([]::'a list)) xs)))"
    using assms by (intro Source_Tee_yield) auto
  then show ?thesis
    by (simp add: Tee_def Tee_yield_or min.commute)
qed

theorem C5_Tee_witness:
  "(1::nat) \<le> 2 \<and> (1::nat) \<le> 4
   \<and> Tee (Source [10, 20, 30, 40, 50, 60 :: int]) (on_fst (stop_after 2)) (on_snd (stop_after 4)) ([], ([], []))
           = ([10, 20, 30, 40], ([10, 20], [10, 20, 30, 40]))"
proof -
  have h1: "(1::nat) \<le> 2" by simp
  have h2: "(1::nat) \<le> 4" by simp
  show ?thesis using C5_Tee [OF h1 h2, of "[10, 20, 30, 40, 50, 60 :: int]" "[]", THEN conjunct1] by simp
qed

subsection \<open>Chunk\<close>

lemma Chunk_yield_decide:
  "Chunk_yield (int K) (decide p) t (chunk, int j, seen)
    = (if Suc j = K then (p (seen @ [chunk[j := t]]), (chunk[j := t], 0, seen @ [chunk[j := t]]))
       else (True, (chunk[j := t], int (Suc j), seen)))"
  by (auto simp: Chunk_yield_def decide_def Let_def)

lemma update_last: "length c = Suc j \<Longrightarrow> c[j := t] = take j c @ [t]"
  by (induction c arbitrary: j) (auto split: nat.splits)

lemma take_Suc_update: "j < length c \<Longrightarrow> take (Suc j) (c[j := t]) = take j c @ [t]"
  by (simp add: take_Suc_conv_app_nth)

lemma Source_Chunk_yield:
  "j < K \<Longrightarrow> length chunk = K \<Longrightarrow>
   \<exists>pulled new chunk' j'.
     Source xs (Chunk_yield (int K) (decide p)) (u, (chunk, int j, seen))
       = (u @ pulled, (chunk', int j', seen @ new))
     \<and> j' < K \<and> length chunk' = K
     \<and> (\<forall>c \<in> set new. length c = K)
     \<and> concat new @ take j' chunk' = take j chunk @ pulled
     \<and> pulled = take (length pulled) xs
     \<and> (\<forall>n. 0 < n \<and> n < length new \<longrightarrow> p (seen @ take n new))
     \<and> (pulled \<noteq> xs \<longrightarrow> new \<noteq> [] \<and> \<not> p (seen @ new))
     \<and> (new \<noteq> [] \<and> \<not> p (seen @ new) \<longrightarrow> j' = 0)"
proof (induction xs arbitrary: u chunk j seen)
  case Nil
  show ?case
    by (rule exI[of _ "[]"], rule exI[of _ "[]"], rule exI[of _ chunk], rule exI[of _ j])
       (use Nil in simp)
next
  case (Cons x xs)
  let ?c = "chunk[j := x]"
  show ?case
  proof (cases "Suc j = K")
    case full: True
    have c: "?c = take j chunk @ [x]" using full Cons.prems by (simp add: update_last)
    show ?thesis
    proof (cases "p (seen @ [?c])")
      case True
      have K0: "0 < K" using full by simp
      have lc: "length ?c = K" using Cons.prems by simp
      from Cons.IH[OF K0 lc, of "u @ [x]" "seen @ [?c]"]
      obtain pulled new chunk' j' where
        r: "Source xs (Chunk_yield (int K) (decide p)) (u @ [x], (?c, int 0, seen @ [?c]))
              = ((u @ [x]) @ pulled, (chunk', int j', (seen @ [?c]) @ new))"
        and i: "j' < K" "length chunk' = K" "\<forall>c \<in> set new. length c = K"
          "concat new @ take j' chunk' = take 0 ?c @ pulled"
          "pulled = take (length pulled) xs"
          "\<forall>n. 0 < n \<and> n < length new \<longrightarrow> p ((seen @ [?c]) @ take n new)"
          "pulled \<noteq> xs \<longrightarrow> new \<noteq> [] \<and> \<not> p ((seen @ [?c]) @ new)"
          "new \<noteq> [] \<and> \<not> p ((seen @ [?c]) @ new) \<longrightarrow> j' = 0"
        by blast
      have run: "Source (x # xs) (Chunk_yield (int K) (decide p)) (u, (chunk, int j, seen))
              = (u @ (x # pulled), (chunk', int j', seen @ (?c # new)))"
        using r full True by (simp add: Chunk_yield_decide)
      have allp: "\<forall>n. 0 < n \<and> n < length (?c # new) \<longrightarrow> p (seen @ take n (?c # new))"
      proof (intro allI impI)
        fix n assume n: "0 < n \<and> n < length (?c # new)"
        then obtain m where m: "n = Suc m" by (cases n) auto
        show "p (seen @ take n (?c # new))"
        proof (cases m)
          case 0 then show ?thesis using m True by simp
        next
          case (Suc k)
          then show ?thesis using m n i(6)[rule_format, of m] by simp
        qed
      qed
      have stop0: "\<not> p (seen @ (?c # new)) \<longrightarrow> j' = 0"
      proof
        assume a: "\<not> p (seen @ (?c # new))"
        have "new \<noteq> []" using a True by (cases new) auto
        then show "j' = 0" using a i(8) by simp
      qed
      show ?thesis
        apply (rule exI[of _ "x # pulled"], rule exI[of _ "?c # new"], rule exI[of _ chunk'], rule exI[of _ j'])
        using run i allp stop0 lc c by (auto simp del: Source.simps)
    next
      case False
      have run: "Source (x # xs) (Chunk_yield (int K) (decide p)) (u, (chunk, int j, seen))
              = (u @ [x], (?c, int 0, seen @ [?c]))"
        using full False by (simp add: Chunk_yield_decide)
      show ?thesis
        apply (rule exI[of _ "[x]"], rule exI[of _ "[?c]"], rule exI[of _ ?c], rule exI[of _ 0])
        using run False full Cons.prems c by (auto simp del: Source.simps)
    qed
  next
    case part: False
    have j1: "Suc j < K" using part Cons.prems by simp
    have lc: "length ?c = K" using Cons.prems by simp
    from Cons.IH[OF j1 lc, of "u @ [x]" seen]
    obtain pulled new chunk' j' where
      r: "Source xs (Chunk_yield (int K) (decide p)) (u @ [x], (?c, int (Suc j), seen))
            = ((u @ [x]) @ pulled, (chunk', int j', seen @ new))"
      and i: "j' < K" "length chunk' = K" "\<forall>c \<in> set new. length c = K"
        "concat new @ take j' chunk' = take (Suc j) ?c @ pulled"
        "pulled = take (length pulled) xs"
        "\<forall>n. 0 < n \<and> n < length new \<longrightarrow> p (seen @ take n new)"
        "pulled \<noteq> xs \<longrightarrow> new \<noteq> [] \<and> \<not> p (seen @ new)"
        "new \<noteq> [] \<and> \<not> p (seen @ new) \<longrightarrow> j' = 0"
      by blast
    have run: "Source (x # xs) (Chunk_yield (int K) (decide p)) (u, (chunk, int j, seen))
            = (u @ (x # pulled), (chunk', int j', seen @ new))"
      using r part by (simp add: Chunk_yield_decide)
    have t: "take (Suc j) ?c = take j chunk @ [x]"
      using Cons.prems by (simp add: take_Suc_update)
    show ?thesis
      apply (rule exI[of _ "x # pulled"], rule exI[of _ new], rule exI[of _ chunk'], rule exI[of _ j'])
      using run i t by (auto simp del: Source.simps)
  qed
qed


lemma length_concat_uniform: "(\<forall>c \<in> set cs. length c = K) \<Longrightarrow> length (concat cs) = length cs * K"
  by (induction cs) auto

lemma Chunk_seq_decide:
  assumes "1 \<le> k"
  shows "\<exists>pulled new chunk' j'.
     Chunk_seq (Source xs) k (decide p) (u, [])
       = (u @ pulled, new @ (if j' = 0 then [] else [take j' chunk']))
     \<and> j' < nat k \<and> length chunk' = nat k
     \<and> (\<forall>c \<in> set new. length c = nat k)
     \<and> concat new @ take j' chunk' = pulled
     \<and> pulled = take (length pulled) xs
     \<and> (\<forall>n. 0 < n \<and> n < length new \<longrightarrow> p (take n new))
     \<and> (pulled \<noteq> xs \<longrightarrow> new \<noteq> [] \<and> \<not> p new)
     \<and> (new \<noteq> [] \<and> \<not> p new \<longrightarrow> j' = 0)"
proof -
  let ?K = "nat k"
  have k: "k = int ?K" and K0: "0 < ?K" using assms by auto
  have lr: "length (replicate ?K (0::'a)) = ?K" by simp
  from Source_Chunk_yield[OF K0 lr, of xs p u "[]"]
  obtain pulled new chunk' j' where
    r: "Source xs (Chunk_yield (int ?K) (decide p)) (u, (replicate ?K 0, int 0, []))
          = (u @ pulled, (chunk', int j', [] @ new))"
    and i: "j' < ?K" "length chunk' = ?K" "\<forall>c \<in> set new. length c = ?K"
      "concat new @ take j' chunk' = take 0 (replicate ?K (0::'a)) @ pulled"
      "pulled = take (length pulled) xs"
      "\<forall>n. 0 < n \<and> n < length new \<longrightarrow> p ([] @ take n new)"
      "pulled \<noteq> xs \<longrightarrow> new \<noteq> [] \<and> \<not> p ([] @ new)"
      "new \<noteq> [] \<and> \<not> p ([] @ new) \<longrightarrow> j' = 0"
    by blast
  have "Chunk_seq (Source xs) k (decide p) (u, [])
       = (u @ pulled, new @ (if j' = 0 then [] else [take j' chunk']))"
    using r k by (simp add: Chunk_seq_def decide_def)
  then show ?thesis using i by (intro exI[of _ pulled] exI[of _ new] exI[of _ chunk'] exI[of _ j']) simp
qed

text \<open>
  C6.  For a chunk size \<open>k \<ge> 1\<close> the construction does not panic, and a consumer that
  keeps every chunk as it is at the moment it is yielded ends with chunks whose
  concatenation is the source; their number is \<open>ceil (L / k)\<close>; every chunk but the last
  has length \<open>k\<close>; the last has length \<open>L mod k\<close>, or \<open>k\<close> when that is 0; and the source
  has been drained.
\<close>

theorem C6_Chunk_complete:
  assumes "1 \<le> k"
  shows "Chunk (Source xs) k = Inr (Chunk_seq (Source xs) k)
         \<and> (\<exists>chunks. Chunk_seq (Source xs) k keep_all (u, []) = (u @ xs, chunks)
              \<and> concat chunks = xs
              \<and> length chunks = (length xs + nat k - 1) div nat k
              \<and> (\<forall>i. Suc i < length chunks \<longrightarrow> length (chunks ! i) = nat k)
              \<and> (chunks \<noteq> [] \<longrightarrow>
                    length (last chunks)
                      = (if length xs mod nat k = 0 then nat k else length xs mod nat k)))"
proof -
  let ?K = "nat k"
  have K0: "0 < ?K" using assms by simp
  from Chunk_seq_decide[OF assms, of xs always u]
  obtain pulled new chunk' j' where
    r: "Chunk_seq (Source xs) k (decide always) (u, [])
       = (u @ pulled, new @ (if j' = 0 then [] else [take j' chunk']))"
    and i: "j' < ?K" "length chunk' = ?K"
      "\<forall>c \<in> set new. length c = ?K"
      "concat new @ take j' chunk' = pulled"
      "pulled \<noteq> xs \<longrightarrow> new \<noteq> [] \<and> \<not> always new"
    by blast
  let ?chunks = "new @ (if j' = 0 then [] else [take j' chunk'])"
  have p: "pulled = xs" using i(5) by (auto simp: always_def)
  have col: "Chunk_seq (Source xs) k keep_all (u, []) = (u @ xs, ?chunks)"
    using r p by (simp add: keep_all_def)
  have cc: "concat ?chunks = xs" using i(4) p by auto
  have len: "length xs = length new * ?K + j'"
    using i(4) p length_concat_uniform[OF i(3)] i(1) i(2) by (metis length_append length_take min.absorb4 min.commute)
  have d: "length xs div ?K = length new" and m: "length xs mod ?K = j'"
    using len i(1) by auto
  have cnt: "length ?chunks = (length xs + ?K - 1) div ?K"
  proof (cases "j' = 0")
    case True
    have "(length new * ?K + ?K - 1) div ?K = length new"
      using K0 by (metis Suc_diff_1 add_Suc_right diff_Suc_1 div_mult_self3 div_less lessI add.right_neutral less_numeral_extra(3))
    then show ?thesis using True len by simp
  next
    case False
    have e: "length xs + ?K - 1 = (j' - 1) + Suc (length new) * ?K" using len False by simp
    have "j' - 1 < ?K" using i(1) by simp
    then have "((j' - 1) + Suc (length new) * ?K) div ?K = Suc (length new)"
      using K0 by (simp only: div_mult_self1 div_less)
    then show ?thesis using False e by simp
  qed
  have full: "\<forall>i. Suc i < length ?chunks \<longrightarrow> length (?chunks ! i) = ?K"
    using i(3) by (auto simp: nth_append)
  have lst: "?chunks \<noteq> [] \<longrightarrow>
               length (last ?chunks) = (if length xs mod ?K = 0 then ?K else length xs mod ?K)"
    using i(1) i(2) i(3) m by auto
  show ?thesis using assms col cc cnt full lst by (auto simp: Chunk_def)
qed

theorem C6_Chunk_complete_witness:
  "(1 :: int) \<le> 2
   \<and> Chunk_seq (Source [1, 2, 3, 4, 5 :: int]) 2 keep_all ([], [])
       = ([1, 2, 3, 4, 5], [[1, 2], [3, 4], [5]])"
proof -
  have h: "(1 :: int) \<le> 2" by simp
  show ?thesis
    using h C6_Chunk_complete [OF h, of "[1, 2, 3, 4, 5 :: int]" "[]"]
    by (simp add: Chunk_seq_def Chunk_yield_def keep_all_def decide_def always_def Let_def
          numeral_2_eq_2)
qed

text \<open>
  C7.  The consumer answers by any function \<open>p\<close> of the chunks it has received.  If its
  answer to the \<open>n\<close>-th chunk it received was \<^verbatim>\<open>false\<close>, then that chunk is the last one
  it ever receives (no later chunk, full or partial), and the source has handed out
  exactly the elements of the chunks yielded so far, which are a prefix of it: nothing
  more was pulled.
\<close>

theorem C7_Chunk_stops:
  assumes "1 \<le> k"
    and "Chunk_seq (Source xs) k (decide p) (u, []) = (u', seen)"
    and "0 < n" and "n \<le> length seen" and "\<not> p (take n seen)"
  shows "Chunk (Source xs) k = Inr (Chunk_seq (Source xs) k)
         \<and> n = length seen
         \<and> u' = u @ concat seen
         \<and> concat seen = take (length (concat seen)) xs"
proof -
  from Chunk_seq_decide[OF assms(1), of xs p u]
  obtain pulled new chunk' j' where
    r: "Chunk_seq (Source xs) k (decide p) (u, [])
       = (u @ pulled, new @ (if j' = 0 then [] else [take j' chunk']))"
    and i: "j' < nat k" "length chunk' = nat k"
      "concat new @ take j' chunk' = pulled"
      "pulled = take (length pulled) xs"
      "\<forall>n. 0 < n \<and> n < length new \<longrightarrow> p (take n new)"
      "new \<noteq> [] \<and> \<not> p new \<longrightarrow> j' = 0"
    by blast
  have u': "u' = u @ pulled" and seen: "seen = new @ (if j' = 0 then [] else [take j' chunk'])"
    using r assms(2) by auto
  have cs: "concat seen = pulled" using seen i(3) by auto
  have nn: "\<not> n < length new"
  proof
    assume a: "n < length new"
    then have "p (take n new)" using i(5) assms(3) by simp
    moreover have "take n seen = take n new" using a seen by simp
    ultimately show False using assms(5) by simp
  qed
  have "n = length seen"
  proof (cases "j' = 0")
    case True
    then show ?thesis using seen nn assms(4) by simp
  next
    case False
    have "n \<noteq> length new"
    proof
      assume e: "n = length new"
      then have "take n seen = new" using seen by simp
      moreover have "new \<noteq> []" using e assms(3) by auto
      ultimately show False using i(6) assms(5) False by simp
    qed
    then show ?thesis using seen nn assms(4) False by simp
  qed
  then show ?thesis using u' cs i(4) assms(1) by (simp add: Chunk_def)
qed

theorem C7_Chunk_stops_witness:
  "(1::int) \<le> 2
   \<and> Chunk_seq (Source [1, 2, 3, 4, 5 :: int]) 2 (decide (fewer_than 1)) ([], []) = ([1, 2], [[1, 2]])
   \<and> (0::nat) < 1 \<and> 1 \<le> length [[1, 2 :: int]] \<and> \<not> fewer_than 1 (take 1 [[1, 2 :: int]])
   \<and> Chunk (Source [1, 2, 3, 4, 5 :: int]) 2
        = (Inr (Chunk_seq (Source [1, 2, 3, 4, 5]) 2) :: error + (int list, int list, int list list) seq)
   \<and> (1::nat) = length [[1, 2 :: int]]
   \<and> [1, 2 :: int] = [] @ concat [[1, 2]]"
proof -
  have h1: "(1::int) \<le> 2" by simp
  have h2: "Chunk_seq (Source [1, 2, 3, 4, 5 :: int]) 2 (decide (fewer_than 1)) ([], []) = ([1, 2], [[1, 2]])"
    by (simp add: Chunk_seq_def Chunk_yield_def decide_def fewer_than_def Let_def numeral_2_eq_2)
  have h3: "(0::nat) < 1" by simp
  have h4: "1 \<le> length [[1, 2 :: int]]" by simp
  have h5: "\<not> fewer_than 1 (take 1 [[1, 2 :: int]])" by (simp add: fewer_than_def)
  show ?thesis using h1 h2 h3 h4 h5 C7_Chunk_stops [OF h1 h2 h3 h4 h5] by simp
qed


subsection \<open>Take and Skip\<close>

lemma Source_Take_keep:
  "0 \<le> i \<Longrightarrow> snd (snd (Source xs (Take_yield n (Reduce_yield append_elem)) (u, (i, acc))))
     = acc @ take (nat (n - i)) xs"
proof (induction xs arbitrary: u i acc)
  case Nil then show ?case by simp
next
  case (Cons x xs)
  show ?case
  proof (cases "i + 1 \<le> n")
    case True
    then have "nat (n - i) = Suc (nat (n - (i + 1)))" using Cons.prems by simp
    then show ?thesis using True Cons.prems Cons.IH[of "i + 1"]
      by (simp add: Take_yield_def Reduce_yield_def append_elem_def Let_def)
  next
    case False
    then show ?thesis by (simp add: Take_yield_def Let_def)
  qed
qed

lemma Source_Skip_keep:
  "0 \<le> i \<Longrightarrow> snd (snd (Source xs (Skip_yield n (Reduce_yield append_elem)) (u, (i, acc))))
     = acc @ drop (nat (n - i)) xs"
proof (induction xs arbitrary: u i acc)
  case Nil then show ?case by simp
next
  case (Cons x xs)
  show ?case
  proof (cases "i < n")
    case True
    then have "nat (n - i) = Suc (nat (n - (i + 1)))" using Cons.prems by simp
    then show ?thesis using True Cons.prems Cons.IH[of "i + 1"]
      by (simp add: Skip_yield_def)
  next
    case False
    then show ?thesis using Cons.prems Cons.IH[of i]
      by (simp add: Skip_yield_def Reduce_yield_def append_elem_def)
  qed
qed

lemma Collect_Take: "snd (Collect_ik (Take (Source xs) n) u) = take (nat n) xs"
  using Source_Take_keep[of 0 xs n u "[]"]
  by (auto simp: Collect_ik_def CollectInto_def Reduce_def Take_def split: prod.splits)

lemma Collect_Skip: "snd (Collect_ik (Skip (Source xs) n) u) = drop (nat n) xs"
  using Source_Skip_keep[of 0 xs n u "[]"]
  by (auto simp: Collect_ik_def CollectInto_def Reduce_def Skip_def split: prod.splits)

text \<open>
  C8.  Collected, \<open>Take s n\<close> is the first \<open>min n |S|\<close> elements of the source in
  order, and followed by what \<open>Skip s n\<close> collects (in a second drive of the source) it
  is the source again.  This holds for every \<open>n\<close>; for \<open>n \<le> 0\<close> Take gives nothing and
  Skip gives everything.
\<close>

theorem C8_Take_Skip:
  "snd (Collect_ik (Take (Source xs) n) u) = take (nat n) xs
   \<and> length (snd (Collect_ik (Take (Source xs) n) u)) = min (nat n) (length xs)
   \<and> snd (Collect_ik (Take (Source xs) n) u) @ snd (Collect_ik (Skip (Source xs) n) u') = xs"
  by (simp add: Collect_Take Collect_Skip min.commute)

theorem C8_Take_Skip_witness:
  "snd (Collect_ik (Take (Source [4, 5, 6, 7 :: int]) 3) []) = [4, 5, 6]
   \<and> snd (Collect_ik (Skip (Source [4, 5, 6, 7 :: int]) 3) []) = [7]"
  using C8_Take_Skip [of "[4, 5, 6, 7 :: int]" 3 "[]" "[]"] by auto

subsection \<open>IsSorted and IsSortedBy\<close>

lemma IsSortedBy_Nil: "IsSortedBy (Source []) order u = (u, 1)"
  by (simp add: IsSortedBy_def IsSortedBy_result_def lastV_init_def)

lemma IsSortedBy_single: "IsSortedBy (Source [x]) order u = (u @ [x], 1)"
  by (simp add: IsSortedBy_def IsSortedBy_result_def lastV_init_def IsSortedBy_body_def
        loopEnd_def)

lemma IsSortedBy_two_or_more:
  "IsSortedBy (Source (x # y # zs)) order u
     = (case Source zs (IsSortedBy_body order)
               (u @ [x, y],
                (\<lparr>lastV_v = y, lastV_ok = True,
                  lastV_cmpSign = \<lparr>cmpSign_sign = order y x, cmpSign_ok = True\<rparr>\<rparr>, None)) of
          (u', st) \<Rightarrow> (u', IsSortedBy_result st))"
  by (simp add: IsSortedBy_def lastV_init_def IsSortedBy_body_def loopEnd_def)

lemma Source_IsSortedBy_body_spec:
  assumes tv: "\<forall>a b. sgn (order a b) = order a b"
  shows "(case Source zs (IsSortedBy_body order)
      (u, (\<lparr>lastV_v = prev, lastV_ok = True,
            lastV_cmpSign = \<lparr>cmpSign_sign = sg, cmpSign_ok = True\<rparr>\<rparr>, None)) of
      (u', st) \<Rightarrow> (u', IsSortedBy_result st))
   = (case spec_established order sg prev zs of (seen, r) \<Rightarrow> (u @ seen, r))"
proof (induction zs arbitrary: u prev)
  case Nil
  then show ?case by (simp add: IsSortedBy_result_def)
next
  case (Cons z zs)
  show ?case
  proof (cases "order z prev = sg")
    case True
    have "sgn (order z prev) = order z prev" using tv by blast
    then have "sgn (order z prev) = sg" using True by simp
    then show ?thesis using True Cons.IH[of "u @ [z]" z]
      by (simp add: IsSortedBy_body_def loopEnd_def split: prod.splits)
  next
    case False
    have "sgn (order z prev) = order z prev" using tv by blast
    then have "sgn (order z prev) \<noteq> sg" using False by simp
    then show ?thesis using False
      by (simp add: IsSortedBy_body_def IsSortedBy_result_def)
  qed
qed

text \<open>
  When the comparator only returns -1, 0 or +1 (each result is its own sign), the code
  is the classification of the specification, verdict and elements looked at.
\<close>

lemma IsSortedBy_three_valued:
  assumes tv: "\<forall>a b. sgn (order a b) = order a b"
  shows "IsSortedBy (Source xs) order u
           = (case spec_IsSortedBy order xs of (seen, r) \<Rightarrow> (u @ seen, r))"
proof (cases xs)
  case Nil
  then show ?thesis by (simp add: IsSortedBy_Nil)
next
  case (Cons x ys)
  show ?thesis
  proof (cases ys)
    case Nil
    then show ?thesis using Cons by (simp add: IsSortedBy_single del: Source.simps)
  next
    case (Cons y zs)
    have "sgn (order y x) = order y x" using tv by blast
    then show ?thesis
      using \<open>xs = x # ys\<close> Cons
        Source_IsSortedBy_body_spec[OF tv, of zs "u @ [x, y]" y "order y x"]
      by (simp add: IsSortedBy_two_or_more del: Source.simps split: prod.splits)
  qed
qed

lemma sgn_cmp_Compare: "sgn (cmp_Compare a b) = cmp_Compare a b"
  by (simp add: cmp_Compare_def)

text \<open>
  C9, as the code behaves.  \<open>IsSorted\<close>, whose comparator \<open>cmp_Compare\<close> returns -1, 0
  or +1, is the classification of the specification on every sequence: 1 on the empty
  and the one-element sequence, else the scan with the established sign; it gives 1 on
  1,2,3,4, -1 on 4,3,2,1 and 0 on 1,2,4,3.  \<open>IsSortedBy\<close> with a three-way comparator
  is not: the code stores the number the comparator returned and compares later numbers
  with it by \<^verbatim>\<open>!=\<close>, never taking a sign.  With the difference as comparator, on the
  ascending 1,2,4,8 it returns 0 after three elements (4 - 2 is not 2 - 1) where every
  sign is positive and the specification's verdict is 1, and on 1,3,5 it returns 2,
  which is none of the 1, 0, -1 that the comment above the function lists.
\<close>

theorem C9_IsSortedBy_compares_raw_results:
  "IsSorted (Source xs) u = (case spec_IsSortedBy cmp_Compare xs of (seen, r) \<Rightarrow> (u @ seen, r))
   \<and> IsSorted (Source [1, 2, 3, 4 :: int]) [] = ([1, 2, 3, 4], 1)
   \<and> IsSorted (Source [4, 3, 2, 1 :: int]) [] = ([4, 3, 2, 1], -1)
   \<and> IsSorted (Source [1, 2, 4, 3 :: int]) [] = ([1, 2, 4, 3], 0)
   \<and> IsSortedBy (Source [1, 2, 4, 8]) diff_order [] = ([1, 2, 4], 0)
   \<and> spec_IsSortedBy diff_order [1, 2, 4, 8] = ([1, 2, 4, 8], 1)
   \<and> IsSortedBy (Source [1, 3, 5]) diff_order [] = ([1, 3, 5], 2)
   \<and> spec_IsSortedBy diff_order [1, 3, 5] = ([1, 3, 5], 1)"
proof -
  have tv: "\<forall>a b :: 'a. sgn (cmp_Compare a b) = cmp_Compare a b"
    by (simp add: sgn_cmp_Compare)
  have a: "IsSorted (Source xs) u
             = (case spec_IsSortedBy cmp_Compare xs of (seen, r) \<Rightarrow> (u @ seen, r))"
    unfolding IsSorted_def by (rule IsSortedBy_three_valued[OF tv])
  have tvi: "\<forall>a b :: int. sgn (cmp_Compare a b) = cmp_Compare a b"
    by (simp add: sgn_cmp_Compare)
  have b: "IsSorted (Source [1, 2, 3, 4 :: int]) [] = ([1, 2, 3, 4], 1)"
    unfolding IsSorted_def IsSortedBy_three_valued[OF tvi] by (simp add: cmp_Compare_def)
  have c: "IsSorted (Source [4, 3, 2, 1 :: int]) [] = ([4, 3, 2, 1], -1)"
    unfolding IsSorted_def IsSortedBy_three_valued[OF tvi] by (simp add: cmp_Compare_def)
  have d: "IsSorted (Source [1, 2, 4, 3 :: int]) [] = ([1, 2, 4, 3], 0)"
    unfolding IsSorted_def IsSortedBy_three_valued[OF tvi] by (simp add: cmp_Compare_def)
  have e: "IsSortedBy (Source [1, 2, 4, 8]) diff_order [] = ([1, 2, 4], 0)"
    by (simp add: IsSortedBy_def IsSortedBy_result_def lastV_init_def IsSortedBy_body_def
          loopEnd_def diff_order_def)
  have f: "spec_IsSortedBy diff_order [1, 2, 4, 8] = ([1, 2, 4, 8], 1)"
    by (simp add: diff_order_def)
  have g: "IsSortedBy (Source [1, 3, 5]) diff_order [] = ([1, 3, 5], 2)"
    by (simp add: IsSortedBy_def IsSortedBy_result_def lastV_init_def IsSortedBy_body_def
          loopEnd_def diff_order_def)
  have h: "spec_IsSortedBy diff_order [1, 3, 5] = ([1, 3, 5], 1)"
    by (simp add: diff_order_def)
  from a b c d e f g h show ?thesis by blast
qed

theorem C9_IsSortedBy_compares_raw_results_witness:
  "IsSorted (Source [3, 2, 1 :: int]) [] = ([3, 2, 1], -1)
   \<and> IsSorted (Source [1, 2, 2 :: int]) [] = ([1, 2, 2], 0)"
  using C9_IsSortedBy_compares_raw_results [of "[3, 2, 1 :: int]" "[]"]
    C9_IsSortedBy_compares_raw_results [of "[1, 2, 2 :: int]" "[]"]
  by (simp add: cmp_Compare_def)

lemma Source_IsSortedBy_body_all_zero:
  "(\<forall>i. Suc i < length (prev # zs) \<longrightarrow> order ((prev # zs) ! Suc i) ((prev # zs) ! i) = 0)
    \<Longrightarrow> (case Source zs (IsSortedBy_body order)
            (u, (\<lparr>lastV_v = prev, lastV_ok = True,
                  lastV_cmpSign = \<lparr>cmpSign_sign = 0, cmpSign_ok = True\<rparr>\<rparr>, None)) of
            (u', st) \<Rightarrow> (u', IsSortedBy_result st))
        = (u @ zs, 0)"
proof (induction zs arbitrary: u prev)
  case Nil then show ?case by (simp add: IsSortedBy_result_def)
next
  case (Cons z zs)
  from Cons.prems have a: "order z prev = 0" by (auto dest: spec[of _ 0])
  have "\<forall>i. Suc i < length (z # zs) \<longrightarrow> order ((z # zs) ! Suc i) ((z # zs) ! i) = 0"
  proof (intro allI impI)
    fix i assume "Suc i < length (z # zs)"
    then show "order ((z # zs) ! Suc i) ((z # zs) ! i) = 0"
      using Cons.prems[rule_format, of "Suc i"] by simp
  qed
  then show ?case using a Cons.IH[of z "u @ [z]"]
    by (simp add: IsSortedBy_body_def loopEnd_def)
qed

text \<open>
  C10.  When a sequence has at least two elements and every comparison of an element
  with the one before it returns 0, \<open>IsSortedBy\<close> returns 0 (and has looked at the
  whole sequence): the 0 established by the first comparison is the verdict.
\<close>

theorem C10_all_equal_is_zero:
  assumes "2 \<le> length xs"
    and "\<forall>i. Suc i < length xs \<longrightarrow> order (xs ! Suc i) (xs ! i) = 0"
  shows "IsSortedBy (Source xs) order u = (u @ xs, 0)"
proof -
  from assms(1) obtain x y zs where xs: "xs = x # y # zs"
    by (cases xs; cases "tl xs") auto
  have o: "order y x = 0" using assms(2)[rule_format, of 0] xs by simp
  have "\<forall>i. Suc i < length (y # zs) \<longrightarrow> order ((y # zs) ! Suc i) ((y # zs) ! i) = 0"
  proof (intro allI impI)
    fix i assume "Suc i < length (y # zs)"
    then show "order ((y # zs) ! Suc i) ((y # zs) ! i) = 0"
      using assms(2)[rule_format, of "Suc i"] xs by simp
  qed
  then show ?thesis
    using o xs Source_IsSortedBy_body_all_zero[of y zs order "u @ [x, y]"]
    by (simp add: IsSortedBy_two_or_more del: Source.simps)
qed

theorem C10_all_equal_is_zero_witness:
  "2 \<le> length [5, 5, 5 :: int]
   \<and> IsSortedBy (Source [5, 5, 5 :: int]) cmp_Compare [] = ([5, 5, 5], 0)"
proof -
  have h1: "2 \<le> length [5, 5, 5 :: int]" by simp
  have h2: "\<forall>i. Suc i < length [5, 5, 5 :: int] \<longrightarrow> cmp_Compare ([5, 5, 5 :: int] ! Suc i) ([5, 5, 5] ! i) = 0"
    by (simp add: cmp_Compare_def nth_Cons split: nat.splits)
  show ?thesis using h1 h2 C10_all_equal_is_zero [OF h1 h2, of "[]"] by simp
qed

end
